theory Spec2Isabelle
  imports Complex_Main
begin

section \<open>Fragmentation analysis of the free block queue\<close>

text \<open>
  The analysis at the end of \<^verbatim>\<open>simulate_fragmentation_scenario\<close> (testing.py, lines
  216 to 250) works on the ids of the free blocks. Block ids are Python integers, so they are
  \<^typ>\<open>int\<close> here. The two quotients of the metrics are Python true divisions of integers;
  they are taken as exact quotients in \<^typ>\<open>rat\<close>, the rounding of the floating point
  result is not part of the model.
\<close>

subsection \<open>The run-building loop\<close>

text \<open>
  Lines 225 to 230: the body of the \<^verbatim>\<open>for\<close> loop, with the loop state \<^verbatim>\<open>runs\<close> and
  \<^verbatim>\<open>current_run\<close> passed along. \<^verbatim>\<open>current_run[-1]\<close> is the last element; the current run
  starts as a one-element list and only grows or is replaced by a one-element list, so the
  read never fails.
\<close>

fun run_loop :: "int list list \<Rightarrow> int list \<Rightarrow> int list \<Rightarrow> int list list \<times> int list" where
  "run_loop runs current_run [] = (runs, current_run)"
| "run_loop runs current_run (block_id # rest) =
     (if block_id = last current_run + 1
      then run_loop runs (current_run @ [block_id]) rest
      else run_loop (runs @ [current_run]) [block_id] rest)"

text \<open>Lines 222 to 231: no run for an empty list, otherwise the loop and the final append.\<close>

definition find_runs :: "int list \<Rightarrow> int list list" where
  "find_runs free_block_ids =
     (case free_block_ids of
        [] \<Rightarrow> []
      | first_id # rest \<Rightarrow>
          (case run_loop [] [first_id] rest of
             (runs, current_run) \<Rightarrow> runs @ [current_run]))"

subsection \<open>The metrics\<close>

record frag_metrics =
  num_runs :: nat
  largest_run :: nat
  average_run :: rat
  total_free :: nat
  external_frag :: rat

text \<open>
  Lines 238 to 250. Nothing is computed when \<^verbatim>\<open>runs\<close> is empty, which is the result
  \<open>None\<close>. The generator expressions over \<^verbatim>\<open>runs\<close> are the maximum and the sum of the run
  lengths; both are taken of a non-empty list on this branch.
\<close>

definition fragmentation_metrics :: "int list \<Rightarrow> int list list \<Rightarrow> frag_metrics option" where
  "fragmentation_metrics free_block_ids runs =
     (if runs \<noteq> [] then
        (let largest = Max (set (map length runs));
             average = of_nat (sum_list (map length runs)) / of_nat (length runs)
         in Some \<lparr>num_runs = length runs,
                  largest_run = largest,
                  average_run = average,
                  total_free = length free_block_ids,
                  external_frag =
                    (if free_block_ids \<noteq> []
                     then 1 - of_nat largest / of_nat (length free_block_ids)
                     else 0)\<rparr>)
      else None)"

text \<open>
  Lines 216 to 250 together: the ids are sorted (line 217, printed on line 219), the runs are
  built from the sorted list (printed on lines 233 to 235, in every case), and the metrics are
  computed and printed when there is a run.
\<close>

record analysis =
  sorted_ids :: "int list"
  found_runs :: "int list list"
  metrics :: "frag_metrics option"

definition analyze_free_blocks :: "int list \<Rightarrow> analysis" where
  "analyze_free_blocks block_ids =
     (let free_block_ids = sort block_ids;
          runs = find_runs free_block_ids
      in \<lparr>sorted_ids = free_block_ids,
          found_runs = runs,
          metrics = fragmentation_metrics free_block_ids runs\<rparr>)"

subsection \<open>Maximal runs of consecutive integers, as the specification words them\<close>

fun consecutive :: "int list \<Rightarrow> bool" where
  "consecutive [] = True"
| "consecutive [x] = True"
| "consecutive (x # y # zs) = (y = x + 1 \<and> consecutive (y # zs))"

text \<open>Two neighbouring runs cannot be joined into one longer run.\<close>

fun separated :: "int list list \<Rightarrow> bool" where
  "separated [] = True"
| "separated [r] = True"
| "separated (r # s # rs) = (hd s \<noteq> last r + 1 \<and> separated (s # rs))"

text \<open>
  \<open>rs\<close> is the partition of \<open>xs\<close> into maximal runs: the runs in order make up \<open>xs\<close>, each is
  a non-empty run of consecutive integers, and no run can be extended by its successor.
\<close>

definition maximal_runs :: "int list list \<Rightarrow> int list \<Rightarrow> bool" where
  "maximal_runs rs xs \<longleftrightarrow>
     concat rs = xs \<and> list_all (\<lambda>r. r \<noteq> [] \<and> consecutive r) rs \<and> separated rs"

section \<open>The block pool\<close>

text \<open>
  The pool, its free queue and its prefix cache index are the classes \<^verbatim>\<open>BlockPool\<close>,
  \<^verbatim>\<open>FreeKVCacheBlockQueue\<close> and \<^verbatim>\<open>BlockHashToBlockMap\<close> that testing.py imports and calls;
  their code is not part of the sources at hand. They are modelled here from the
  specification (sections 3, 4 and 7), under the names the specification gives them.
\<close>

subsection \<open>Errors and blocks\<close>

text \<open>Modelled from the spec: the error taxonomy of section 7 (the class of every error the
  pool raises is missing from the sources).\<close>

datatype pool_error = InsufficientCapacity | DoubleFreeError | EmptyQueue | InvariantViolation

text \<open>Modelled from the spec: the key of the prefix cache index, an opaque comparable
  content hash (bytes, here a string) together with the id of a cache group.\<close>

type_synonym cache_key = "string \<times> int"

text \<open>Modelled from the spec: the Block of section 3 (class \<^verbatim>\<open>KVCacheBlock\<close>, missing). The id
  of a block is its index in the array of the pool, so it is not a field. The reference count is
  a non-negative integer. The links \<^verbatim>\<open>prev_free\<close> and \<^verbatim>\<open>next_free\<close> are the position of the id
  in the free queue below. The reserved null block is never allocated, freed or counted; it is
  not in the array: section 8 counts every block of a pool of capacity 50 as free at
  construction and gives the ids from 0 on to the first request. (A pool that takes id 0 out of
  the array for the null block has one free block less at every point.)\<close>

record block =
  ref_count :: nat
  content_hash :: "cache_key option"

subsection \<open>The free block queue\<close>

text \<open>Modelled from the spec: the FreeBlockQueue of sections 3 and 4.2 (missing), an ordered
  collection of the ids of the unreferenced blocks, head first. The doubly linked chain is the
  list of ids; the tracked size is the length of the list.\<close>

type_synonym free_queue = "nat list"

text \<open>Modelled from the spec: \<^verbatim>\<open>take_front\<close> of section 4.2 (missing) removes and returns the
  head and fails with \<^verbatim>\<open>EmptyQueue\<close> on an empty queue.\<close>

fun take_front :: "free_queue \<Rightarrow> pool_error + (nat \<times> free_queue)" where
  "take_front [] = Inl EmptyQueue"
| "take_front (b # q) = Inr (b, q)"

text \<open>Modelled from the spec: \<^verbatim>\<open>push_back\<close> of section 4.2 (missing) appends at the tail. Its
  precondition, that the block is unreferenced and not linked yet, is the caller's duty.\<close>

definition push_back :: "nat \<Rightarrow> free_queue \<Rightarrow> free_queue" where
  "push_back b q = q @ [b]"

text \<open>Modelled from the spec: the return of a popped block to the front of the queue, which
  section 4.4 asks of a failed allocation (missing).\<close>

definition push_front :: "nat \<Rightarrow> free_queue \<Rightarrow> free_queue" where
  "push_front b q = b # q"

text \<open>Modelled from the spec: \<^verbatim>\<open>remove\<close> of section 4.2 (missing) detaches a block from
  wherever it sits in the chain.\<close>

definition queue_remove :: "nat \<Rightarrow> free_queue \<Rightarrow> free_queue" where
  "queue_remove b q = remove1 b q"

subsection \<open>The prefix cache index\<close>

text \<open>Modelled from the spec: the PrefixCacheIndex of sections 3 and 4.3 (class
  \<^verbatim>\<open>BlockHashToBlockMap\<close>, missing), a mapping from keys to block ids, kept as an association
  list in the order of insertion.\<close>

type_synonym prefix_cache_index = "(cache_key \<times> nat) list"

text \<open>Modelled from the spec: \<^verbatim>\<open>insert\<close> of section 4.3 (missing) adds the id of the block
  under the key unless an entry for the key already exists; then it does nothing.\<close>

definition index_insert :: "cache_key \<Rightarrow> nat \<Rightarrow> prefix_cache_index \<Rightarrow> prefix_cache_index" where
  "index_insert key b idx = (if map_of idx key = None then idx @ [(key, b)] else idx)"

text \<open>Modelled from the spec: \<^verbatim>\<open>lookup\<close> of section 4.3 (missing) returns the block stored
  under the key, if there is one.\<close>

definition index_lookup :: "cache_key \<Rightarrow> prefix_cache_index \<Rightarrow> nat option" where
  "index_lookup key idx = map_of idx key"

text \<open>Modelled from the spec: \<^verbatim>\<open>remove\<close> of section 4.3 (missing) deletes the mapping only if
  the id stored under the key is the given one.\<close>

definition index_remove :: "cache_key \<Rightarrow> nat \<Rightarrow> prefix_cache_index \<Rightarrow> prefix_cache_index" where
  "index_remove key b idx =
     (if map_of idx key = Some b then filter (\<lambda>entry. fst entry \<noteq> key) idx else idx)"

text \<open>Modelled from the spec: \<^verbatim>\<open>size\<close> of section 4.3 (missing) counts the distinct keys that
  are mapped.\<close>

definition index_size :: "prefix_cache_index \<Rightarrow> nat" where
  "index_size idx = length (remdups (map fst idx))"

subsection \<open>The pool\<close>

text \<open>Modelled from the spec: the BlockPool of section 3 (missing): the fixed array of all
  blocks, one free queue and one index. \<^verbatim>\<open>hash_block_size\<close> is passed through and not used.\<close>

record block_pool =
  blocks :: "block list"
  free_block_queue :: free_queue
  cache_index :: prefix_cache_index
  hash_block_size :: nat

text \<open>Modelled from the spec: the capacity of a pool is the size of its array of blocks
  (missing).\<close>

definition capacity :: "block_pool \<Rightarrow> nat" where
  "capacity p = length (blocks p)"

text \<open>Modelled from the spec: construction (sections 3 and 6, missing): all blocks are
  created unreferenced, without a hash, and free, linked in the order of their ids.\<close>

definition new_pool :: "nat \<Rightarrow> nat \<Rightarrow> block_pool" where
  "new_pool cap hbs =
     \<lparr>blocks = replicate cap \<lparr>ref_count = 0, content_hash = None\<rparr>,
      free_block_queue = [0..<cap],
      cache_index = [],
      hash_block_size = hbs\<rparr>"

text \<open>Modelled from the spec: \<^verbatim>\<open>free_count\<close> of section 4.4 (missing) is the size of the free
  queue.\<close>

definition free_count :: "block_pool \<Rightarrow> nat" where
  "free_count p = length (free_block_queue p)"

text \<open>Modelled from the spec: the number of blocks with a reference count above 0, which the
  invariant of section 8 counts (missing).\<close>

definition referenced_count :: "block_pool \<Rightarrow> nat" where
  "referenced_count p = length (filter (\<lambda>blk. 0 < ref_count blk) (blocks p))"

text \<open>Modelled from the spec: the first half of \<^verbatim>\<open>allocate\<close> in section 4.4 (missing): the
  head of the queue is taken \<open>n\<close> times. When the queue runs empty, the blocks popped so far
  are returned to the front of the queue, the last popped first, so that they stand in their
  original order, and the failure is reported as \<^verbatim>\<open>InsufficientCapacity\<close> (section 7: an
  \<^verbatim>\<open>EmptyQueue\<close> never leaves the pool). The result is the queue and the popped ids.\<close>

fun pop_blocks :: "nat \<Rightarrow> free_queue \<Rightarrow> nat list \<Rightarrow> free_queue \<times> (pool_error + nat list)" where
  "pop_blocks 0 q popped = (q, Inr popped)"
| "pop_blocks (Suc n) q popped =
     (case take_front q of
        Inl e \<Rightarrow> (foldr push_front popped q, Inl InsufficientCapacity)
      | Inr (b, q') \<Rightarrow> pop_blocks n q' (popped @ [b]))"

text \<open>Modelled from the spec: what \<^verbatim>\<open>allocate\<close> does to a block it has taken (section 4.4,
  missing): a block that carries a content hash is removed from the index and loses its hash;
  the reference count is set to 1. The ids come from the free queue, which holds ids of the
  array.\<close>

definition claim_block :: "nat \<Rightarrow> block_pool \<Rightarrow> block_pool" where
  "claim_block b p =
     (let blk = blocks p ! b in
      p\<lparr>cache_index :=
           (case content_hash blk of
              None \<Rightarrow> cache_index p
            | Some key \<Rightarrow> index_remove key b (cache_index p)),
        blocks := (blocks p)[b := blk\<lparr>content_hash := None, ref_count := 1\<rparr>]\<rparr>)"

text \<open>Modelled from the spec: \<^verbatim>\<open>allocate\<close> of section 4.4 (missing; testing.py calls it as
  \<^verbatim>\<open>get_new_blocks\<close>). Allocation is all or nothing, and a failed allocation leaves no side
  effect (section 7): the blocks are first taken from the queue, and only when all \<open>n\<close> are
  there they are claimed one after the other. The result is the pool after the call and either
  the error or the allocated ids.\<close>

definition allocate :: "block_pool \<Rightarrow> nat \<Rightarrow> block_pool \<times> (pool_error + nat list)" where
  "allocate p n =
     (case pop_blocks n (free_block_queue p) [] of
        (q, Inl e) \<Rightarrow> (p\<lparr>free_block_queue := q\<rparr>, Inl e)
      | (q, Inr popped) \<Rightarrow> (fold claim_block popped (p\<lparr>free_block_queue := q\<rparr>), Inr popped))"

text \<open>Modelled from the spec: \<^verbatim>\<open>retain\<close> of section 4.4 (missing) adds 1 to the reference count
  of a block that is already held; queue and index stay as they are, the block being not free.
  A call on a block that is not held, or on an id outside the array, breaks the contract of
  the caller (section 6) and would leave a block both free and referenced; it is reported as
  \<^verbatim>\<open>InvariantViolation\<close> (section 7) and changes nothing.\<close>

definition retain :: "block_pool \<Rightarrow> nat \<Rightarrow> block_pool \<times> (pool_error + unit)" where
  "retain p b =
     (if b < capacity p \<and> 0 < ref_count (blocks p ! b)
      then (p\<lparr>blocks := (blocks p)[b := (blocks p ! b)\<lparr>ref_count := ref_count (blocks p ! b) + 1\<rparr>]\<rparr>,
            Inr ())
      else (p, Inl InvariantViolation))"

text \<open>Modelled from the spec: the release of one block (section 4.4, missing): the reference
  count is decremented, and a block whose count reaches 0 is pushed to the tail of the free
  queue, keeping its hash and its place in the index. Releasing a block whose count is already
  0 is a \<^verbatim>\<open>DoubleFreeError\<close>. An id outside the array is no block of the pool.\<close>

definition release_block :: "block_pool \<Rightarrow> nat \<Rightarrow> pool_error + block_pool" where
  "release_block p b =
     (if \<not> b < capacity p then Inl InvariantViolation
      else if ref_count (blocks p ! b) = 0 then Inl DoubleFreeError
      else
        (let blk = (blocks p ! b)\<lparr>ref_count := ref_count (blocks p ! b) - 1\<rparr>;
             p' = p\<lparr>blocks := (blocks p)[b := blk]\<rparr>
         in Inr (if ref_count blk = 0
                 then p'\<lparr>free_block_queue := push_back b (free_block_queue p')\<rparr>
                 else p')))"

text \<open>Modelled from the spec: the loop of \<^verbatim>\<open>release\<close> over its blocks, in the order given; it
  stops at the first error (missing).\<close>

fun release_all :: "block_pool \<Rightarrow> nat list \<Rightarrow> pool_error + block_pool" where
  "release_all p [] = Inr p"
| "release_all p (b # bs) =
     (case release_block p b of
        Inl e \<Rightarrow> Inl e
      | Inr p' \<Rightarrow> release_all p' bs)"

text \<open>Modelled from the spec: \<^verbatim>\<open>release\<close> of section 4.4 (missing; testing.py calls it as
  \<^verbatim>\<open>free_blocks\<close>). An error is raised without partial mutation (section 7): the pool after a
  failed call is the pool before it.\<close>

definition release :: "block_pool \<Rightarrow> nat list \<Rightarrow> block_pool \<times> (pool_error + unit)" where
  "release p bs =
     (case release_all p bs of
        Inl e \<Rightarrow> (p, Inl e)
      | Inr p' \<Rightarrow> (p', Inr ()))"

text \<open>Modelled from the spec: \<^verbatim>\<open>try_cache_lookup\<close> of section 4.4 (missing) queries the index.
  On a hit the pool acquires the block in one step: a block that sits unreferenced in the
  free queue is removed from the queue, and the reference count is bumped. An id in the index
  that is outside the array is an \<^verbatim>\<open>InvariantViolation\<close>.\<close>

definition try_cache_lookup :: "block_pool \<Rightarrow> cache_key \<Rightarrow> block_pool \<times> (pool_error + nat option)" where
  "try_cache_lookup p key =
     (case index_lookup key (cache_index p) of
        None \<Rightarrow> (p, Inr None)
      | Some b \<Rightarrow>
          if \<not> b < capacity p then (p, Inl InvariantViolation)
          else
            (let q = (if ref_count (blocks p ! b) = 0
                      then queue_remove b (free_block_queue p)
                      else free_block_queue p);
                 blk = (blocks p ! b)\<lparr>ref_count := ref_count (blocks p ! b) + 1\<rparr>
             in (p\<lparr>blocks := (blocks p)[b := blk], free_block_queue := q\<rparr>, Inr (Some b))))"

text \<open>Modelled from the spec: the calls of a caller, one constructor for each of the four
  operations of section 4.4 that change the pool (missing).\<close>

datatype pool_op = Allocate nat | Retain nat | Release "nat list" | TryCacheLookup cache_key

text \<open>Modelled from the spec: the pool after one call; an error is raised to the caller and
  the pool goes on from the state the failed call left (missing).\<close>

fun exec_op :: "block_pool \<Rightarrow> pool_op \<Rightarrow> block_pool" where
  "exec_op p (Allocate n) = fst (allocate p n)"
| "exec_op p (Retain b) = fst (retain p b)"
| "exec_op p (Release bs) = fst (release p bs)"
| "exec_op p (TryCacheLookup key) = fst (try_cache_lookup p key)"

text \<open>Modelled from the spec: the pool after a sequence of calls (missing).\<close>

fun run_ops :: "block_pool \<Rightarrow> pool_op list \<Rightarrow> block_pool" where
  "run_ops p [] = p"
| "run_ops p (x # xs) = run_ops (exec_op p x) xs"

text \<open>Modelled from the spec: the invariant of section 3 (missing): a block with a reference
  count above 0 is never in the free queue, and a block with the count 0 is in it exactly
  once.\<close>

definition pool_wf :: "block_pool \<Rightarrow> bool" where
  "pool_wf p \<longleftrightarrow>
     distinct (free_block_queue p) \<and>
     set (free_block_queue p) =
       set (filter (\<lambda>b. ref_count (blocks p ! b) = 0) [0..<capacity p])"

subsection \<open>The scenario of testing.py\<close>

text \<open>
  Lines 179 to 250 of \<^verbatim>\<open>simulate_fragmentation_scenario\<close>: a pool of 50 blocks, three
  allocations of 10, 15 and 8 blocks, the release of the second request, and the analysis of
  the ids of the free blocks. The result holds the number of free blocks after the third
  allocation and after the release, the ids of the free blocks in the order of the queue, and
  the analysis. An error of the pool ends the scenario. The calls \<^verbatim>\<open>get_new_blocks\<close>,
  \<^verbatim>\<open>free_blocks\<close>, \<^verbatim>\<open>get_num_free_blocks\<close> and \<^verbatim>\<open>free_block_queue.get_all_free_blocks\<close>
  of the script are \<open>allocate\<close>, \<open>release\<close>, \<open>free_count\<close> and the queue read head first.
\<close>

record scenario_result =
  free_after_allocations :: nat
  free_after_release :: nat
  free_ids :: "int list"
  report :: analysis

definition simulate_fragmentation_scenario :: "pool_error + scenario_result" where
  "simulate_fragmentation_scenario =
     (let block_pool = new_pool 50 16 in
      case allocate block_pool 10 of
        (p1, Inl e) \<Rightarrow> Inl e
      | (p1, Inr req1_blocks) \<Rightarrow>
          (case allocate p1 15 of
             (p2, Inl e) \<Rightarrow> Inl e
           | (p2, Inr req2_blocks) \<Rightarrow>
               (case allocate p2 8 of
                  (p3, Inl e) \<Rightarrow> Inl e
                | (p3, Inr req3_blocks) \<Rightarrow>
                    (case release p3 req2_blocks of
                       (p4, Inl e) \<Rightarrow> Inl e
                     | (p4, Inr u) \<Rightarrow>
                         Inr \<lparr>free_after_allocations = free_count p3,
                              free_after_release = free_count p4,
                              free_ids = map int (free_block_queue p4),
                              report = analyze_free_blocks (map int (free_block_queue p4))\<rparr>))))"

section \<open>Properties of the fragmentation analysis\<close>

subsection \<open>The loop and its runs\<close>

lemma run_loop_acc:
  "run_loop runs cur xs = (runs @ fst (run_loop [] cur xs), snd (run_loop [] cur xs))"
proof (induction xs arbitrary: runs cur)
  case Nil
  show ?case by simp
next
  case (Cons x xs)
  show ?case
  proof (cases "x = last cur + 1")
    case True
    then show ?thesis using Cons.IH [of runs "cur @ [x]"] by simp
  next
    case False
    then show ?thesis
      using Cons.IH [of "runs @ [cur]" "[x]"] Cons.IH [of "[cur]" "[x]"] by simp
  qed
qed

lemma run_loop_concat:
  "run_loop runs cur xs = (runs', cur') \<Longrightarrow> concat runs' @ cur' = concat runs @ cur @ xs"
  by (induction xs arbitrary: runs cur) (auto split: if_splits)

lemma run_loop_nonempty:
  "run_loop runs cur xs = (runs', cur') \<Longrightarrow> cur \<noteq> [] \<Longrightarrow> list_all (\<lambda>r. r \<noteq> []) runs
   \<Longrightarrow> cur' \<noteq> [] \<and> list_all (\<lambda>r. r \<noteq> []) runs'"
  by (induction xs arbitrary: runs cur) (auto split: if_splits)

lemma consecutive_snoc:
  "xs \<noteq> [] \<Longrightarrow> consecutive (xs @ [y]) \<longleftrightarrow> consecutive xs \<and> y = last xs + 1"
  by (induction xs rule: consecutive.induct) auto

lemma consecutive_append_Cons:
  "xs \<noteq> [] \<Longrightarrow> consecutive (xs @ y # ys) \<Longrightarrow> y = last xs + 1"
  by (induction xs rule: consecutive.induct) auto

lemma run_loop_consecutive:
  "run_loop runs cur xs = (runs', cur') \<Longrightarrow> cur \<noteq> [] \<Longrightarrow> consecutive cur \<Longrightarrow> list_all consecutive runs
   \<Longrightarrow> consecutive cur' \<and> list_all consecutive runs'"
  by (induction xs arbitrary: runs cur) (auto split: if_splits simp: consecutive_snoc)

lemma separated_snoc:
  "separated (rs @ [r, s]) \<longleftrightarrow> separated (rs @ [r]) \<and> hd s \<noteq> last r + 1"
  by (induction rs rule: separated.induct) auto

lemma separated_grow_last:
  "r \<noteq> [] \<Longrightarrow> separated (rs @ [r @ [y]]) \<longleftrightarrow> separated (rs @ [r])"
  by (induction rs rule: separated.induct) auto

lemma run_loop_separated:
  "run_loop runs cur xs = (runs', cur') \<Longrightarrow> cur \<noteq> [] \<Longrightarrow> separated (runs @ [cur])
   \<Longrightarrow> separated (runs' @ [cur'])"
proof (induction xs arbitrary: runs cur)
  case Nil
  then show ?case by simp
next
  case (Cons x xs)
  show ?case
  proof (cases "x = last cur + 1")
    case True
    with Cons.prems have "run_loop runs (cur @ [x]) xs = (runs', cur')" by simp
    moreover have "separated (runs @ [cur @ [x]])"
      using Cons.prems by (simp add: separated_grow_last)
    ultimately show ?thesis using Cons.IH by blast
  next
    case False
    with Cons.prems have "run_loop (runs @ [cur]) [x] xs = (runs', cur')" by simp
    moreover have "separated ((runs @ [cur]) @ [[x]])"
      using Cons.prems False separated_snoc [of runs cur "[x]"] by simp
    ultimately show ?thesis using Cons.IH by blast
  qed
qed

lemma find_runs_maximal: "maximal_runs (find_runs xs) xs"
proof (cases xs)
  case Nil
  then show ?thesis by (simp add: find_runs_def maximal_runs_def)
next
  case (Cons x rest)
  obtain runs cur where rl: "run_loop [] [x] rest = (runs, cur)" by (cases "run_loop [] [x] rest")
  have fr: "find_runs xs = runs @ [cur]" using Cons rl by (simp add: find_runs_def)
  have "concat runs @ cur = xs" using run_loop_concat [OF rl] Cons by simp
  moreover have "cur \<noteq> [] \<and> list_all (\<lambda>r. r \<noteq> []) runs" using run_loop_nonempty [OF rl] by simp
  moreover have "consecutive cur \<and> list_all consecutive runs" using run_loop_consecutive [OF rl] by simp
  moreover have "separated (runs @ [cur])" using run_loop_separated [OF rl] by simp
  ultimately show ?thesis unfolding maximal_runs_def fr by (simp add: list_all_iff)
qed

lemma concat_nonempty_Nil:
  "concat rs = [] \<Longrightarrow> list_all (\<lambda>r. r \<noteq> [] \<and> P r) rs \<Longrightarrow> rs = []"
  by (cases rs) auto

lemma run_loop_unique:
  "cur \<noteq> [] \<Longrightarrow> (cur @ t) @ concat rs = cur @ xs
   \<Longrightarrow> list_all (\<lambda>r. r \<noteq> [] \<and> consecutive r) ((cur @ t) # rs) \<Longrightarrow> separated ((cur @ t) # rs)
   \<Longrightarrow> run_loop [] cur xs = (butlast ((cur @ t) # rs), last ((cur @ t) # rs))"
proof (induction xs arbitrary: cur t rs)
  case Nil
  then have "t = []" and "concat rs = []" by simp_all
  moreover from this Nil.prems have "rs = []" using concat_nonempty_Nil [of rs consecutive] by simp
  ultimately show ?case by simp
next
  case (Cons x xs)
  from Cons.prems have eq: "t @ concat rs = x # xs" by simp
  show ?case
  proof (cases t)
    case Nil
    with eq have crs: "concat rs = x # xs" by simp
    then obtain s rs' where rs: "rs = s # rs'" by (cases rs) auto
    with Cons.prems have sne: "s \<noteq> []" by simp
    with crs rs obtain t' where s: "s = [x] @ t'" by (cases s) auto
    from Cons.prems Nil rs s have nx: "x \<noteq> last cur + 1" by simp
    have "run_loop [] [x] xs = (butlast (([x] @ t') # rs'), last (([x] @ t') # rs'))"
    proof (rule Cons.IH)
      show "[x] \<noteq> []" by simp
      show "([x] @ t') @ concat rs' = [x] @ xs" using crs rs s by simp
      show "list_all (\<lambda>r. r \<noteq> [] \<and> consecutive r) (([x] @ t') # rs')" using Cons.prems rs s by simp
      show "separated (([x] @ t') # rs')" using Cons.prems rs s Nil by simp
    qed
    then show ?thesis
      using nx Nil rs s run_loop_acc [of "[cur]" "[x]" xs] by simp
  next
    case (Cons y t')
    with eq have y: "y = x" by simp
    from Cons.prems(3) Cons have "consecutive (cur @ y # t')" by simp
    with Cons.prems(1) y have nx: "x = last cur + 1" using consecutive_append_Cons by blast
    have "run_loop [] (cur @ [x]) xs = (butlast (((cur @ [x]) @ t') # rs), last (((cur @ [x]) @ t') # rs))"
    proof (rule Cons.IH)
      show "cur @ [x] \<noteq> []" by simp
      show "((cur @ [x]) @ t') @ concat rs = (cur @ [x]) @ xs" using eq Cons y by simp
      show "list_all (\<lambda>r. r \<noteq> [] \<and> consecutive r) (((cur @ [x]) @ t') # rs)" using Cons.prems Cons y by simp
      show "separated (((cur @ [x]) @ t') # rs)" using Cons.prems Cons y by simp
    qed
    then show ?thesis using nx Cons y by simp
  qed
qed

lemma maximal_runs_unique:
  assumes "maximal_runs rs xs"
  shows "find_runs xs = rs"
proof (cases xs)
  case Nil
  with assms have "rs = []" using concat_nonempty_Nil [of rs consecutive] by (simp add: maximal_runs_def)
  with Nil show ?thesis by (simp add: find_runs_def)
next
  case (Cons x rest)
  with assms obtain r rs' where rs: "rs = r # rs'" by (cases rs) (auto simp: maximal_runs_def)
  with assms have "r \<noteq> []" by (simp add: maximal_runs_def)
  with assms rs Cons obtain t where r: "r = [x] @ t" by (cases r) (auto simp: maximal_runs_def)
  have "run_loop [] [x] rest = (butlast (([x] @ t) # rs'), last (([x] @ t) # rs'))"
  proof (rule run_loop_unique)
    show "[x] \<noteq> []" by simp
    show "([x] @ t) @ concat rs' = [x] @ rest" using assms rs r Cons by (simp add: maximal_runs_def)
    show "list_all (\<lambda>r. r \<noteq> [] \<and> consecutive r) (([x] @ t) # rs')" using assms rs r by (simp add: maximal_runs_def)
    show "separated (([x] @ t) # rs')" using assms rs r by (simp add: maximal_runs_def)
  qed
  then have "find_runs xs = butlast (r # rs') @ [last (r # rs')]"
    using Cons r by (simp add: find_runs_def)
  then show ?thesis using rs by (simp del: butlast.simps last.simps)
qed

lemma find_runs_concat: "concat (find_runs xs) = xs"
  using find_runs_maximal [of xs] by (simp add: maximal_runs_def)

lemma find_runs_nonempty: "r \<in> set (find_runs xs) \<Longrightarrow> r \<noteq> []"
  using find_runs_maximal [of xs] by (auto simp: maximal_runs_def list_all_iff)

lemma find_runs_Nil_iff: "find_runs xs = [] \<longleftrightarrow> xs = []"
  by (cases xs) (auto simp: find_runs_def split: prod.splits)

lemma sort_Nil_iff: "sort xs = [] \<longleftrightarrow> xs = []"
  using length_sort [of "\<lambda>x. x" xs] by (metis length_0_conv)

lemma find_runs_lengths: "sum_list (map length (find_runs xs)) = length xs"
  by (metis length_concat find_runs_concat)

lemma metrics_Some:
  assumes "runs \<noteq> []"
  shows "fragmentation_metrics ids runs =
     Some \<lparr>num_runs = length runs,
           largest_run = Max (set (map length runs)),
           average_run = of_nat (sum_list (map length runs)) / of_nat (length runs),
           total_free = length ids,
           external_frag = (if ids \<noteq> [] then 1 - of_nat (Max (set (map length runs))) / of_nat (length ids) else 0)\<rparr>"
  using assms by (simp add: fragmentation_metrics_def Let_def)

lemma Max_lengths:
  assumes "runs \<noteq> []"
  shows "(\<forall>r\<in>set runs. length r \<le> Max (set (map length runs)))
       \<and> (\<exists>r\<in>set runs. length r = Max (set (map length runs)))"
proof -
  have fin: "finite (set (map length runs))" and ne: "set (map length runs) \<noteq> {}"
    using assms by simp_all
  have "Max (set (map length runs)) \<in> set (map length runs)" using Max_in [OF fin ne] .
  then have "\<exists>r\<in>set runs. length r = Max (set (map length runs))" by auto
  moreover have "\<forall>r\<in>set runs. length r \<le> Max (set (map length runs))"
    using Max_ge [OF fin] by simp
  ultimately show ?thesis by blast
qed

lemma distinct_concat_head:
  assumes "distinct (concat (r # rs))" and "x \<in> set r" and "k < length rs"
    and "x \<in> set (rs ! k)"
  shows False
proof -
  from assms(1) have disj: "set r \<inter> set (concat rs) = {}" by simp
  from assms(3) have "rs ! k \<in> set rs" by simp
  with assms(4) have "x \<in> set (concat rs)" by auto
  with disj assms(2) show False by blast
qed

lemma distinct_concat_index:
  "distinct (concat rs) \<Longrightarrow> i < length rs \<Longrightarrow> j < length rs
   \<Longrightarrow> x \<in> set (rs ! i) \<Longrightarrow> x \<in> set (rs ! j) \<Longrightarrow> i = j"
proof (induction rs arbitrary: i j)
  case Nil
  then show ?case by simp
next
  case (Cons r rs)
  show ?case
  proof (cases i)
    case 0
    note i0 = 0
    show ?thesis
    proof (cases j)
      case 0
      with i0 show ?thesis by simp
    next
      case (Suc j')
      with Cons.prems i0 have "x \<in> set r" and "j' < length rs" and "x \<in> set (rs ! j')"
        by simp_all
      with Cons.prems(1) have False by (rule distinct_concat_head)
      then show ?thesis ..
    qed
  next
    case (Suc i')
    note iS = Suc
    show ?thesis
    proof (cases j)
      case 0
      with Cons.prems iS have "x \<in> set r" and "i' < length rs" and "x \<in> set (rs ! i')"
        by simp_all
      with Cons.prems(1) have False by (rule distinct_concat_head)
      then show ?thesis ..
    next
      case (Suc j')
      from Cons.prems(1) have d: "distinct (concat rs)" by simp
      from Cons.prems iS Suc have "i' < length rs" "j' < length rs"
        "x \<in> set (rs ! i')" "x \<in> set (rs ! j')" by simp_all
      with d have "i' = j'" by (rule Cons.IH)
      with Suc iS show ?thesis by simp
    qed
  qed
qed

subsection \<open>The claims about the analysis\<close>

text \<open>
  Claim C2. The analyzer sorts the ids and splits the sorted list into its maximal runs of
  consecutive integers: the runs it finds are a partition into maximal runs, and they are the
  only one. The reported number of runs is the number of these runs, and the reported largest
  run is the greatest of their lengths: no run is longer and some run has that length. (For the
  empty list there is no run and no largest run is reported.)
\<close>

theorem analyzer_runs_maximal:
  "maximal_runs (found_runs (analyze_free_blocks ids)) (sort ids)
   \<and> (\<forall>rs. maximal_runs rs (sort ids) \<longrightarrow> rs = found_runs (analyze_free_blocks ids))
   \<and> (ids = [] \<longrightarrow> found_runs (analyze_free_blocks ids) = [])
   \<and> (ids \<noteq> [] \<longrightarrow> (\<exists>m. metrics (analyze_free_blocks ids) = Some m
         \<and> num_runs m = length (found_runs (analyze_free_blocks ids))
         \<and> (\<forall>r\<in>set (found_runs (analyze_free_blocks ids)). length r \<le> largest_run m)
         \<and> (\<exists>r\<in>set (found_runs (analyze_free_blocks ids)). length r = largest_run m)))"
proof -
  let ?runs = "find_runs (sort ids)"
  have fr: "found_runs (analyze_free_blocks ids) = ?runs"
    by (simp add: analyze_free_blocks_def Let_def)
  have me: "metrics (analyze_free_blocks ids) = fragmentation_metrics (sort ids) ?runs"
    by (simp add: analyze_free_blocks_def Let_def)
  have a: "maximal_runs ?runs (sort ids)" by (rule find_runs_maximal)
  have b: "\<forall>rs. maximal_runs rs (sort ids) \<longrightarrow> rs = ?runs"
    using maximal_runs_unique by blast
  have c: "ids = [] \<longrightarrow> ?runs = []" by (simp add: find_runs_Nil_iff)
  have d: "ids \<noteq> [] \<longrightarrow> (\<exists>m. fragmentation_metrics (sort ids) ?runs = Some m
         \<and> num_runs m = length ?runs
         \<and> (\<forall>r\<in>set ?runs. length r \<le> largest_run m)
         \<and> (\<exists>r\<in>set ?runs. length r = largest_run m))"
  proof
    assume "ids \<noteq> []"
    then have ne: "?runs \<noteq> []" by (simp add: find_runs_Nil_iff sort_Nil_iff)
    show "\<exists>m. fragmentation_metrics (sort ids) ?runs = Some m
         \<and> num_runs m = length ?runs
         \<and> (\<forall>r\<in>set ?runs. length r \<le> largest_run m)
         \<and> (\<exists>r\<in>set ?runs. length r = largest_run m)"
      using Max_lengths [OF ne] by (simp add: metrics_Some [OF ne])
  qed
  show ?thesis unfolding fr me using a b c d by blast
qed

theorem analyzer_runs_maximal_witness:
  "maximal_runs [[1, 2], [4, 5], [9]] (sort [5, 1, 2, 9, 4])
   \<and> found_runs (analyze_free_blocks [5, 1, 2, 9, 4]) = [[1, 2], [4, 5], [9]]
   \<and> (\<exists>m. metrics (analyze_free_blocks [5, 1, 2, 9, 4]) = Some m \<and> num_runs m = 3
          \<and> largest_run m = 2)"
proof -
  have h: "maximal_runs [[1, 2], [4, 5], [9]] (sort [5, 1, 2, 9, 4])"
    by (simp add: maximal_runs_def)
  have ne: "[5, 1, 2, 9, 4] \<noteq> ([] :: int list)" by simp
  note t = analyzer_runs_maximal [of "[5, 1, 2, 9, 4]"]
  from t h have fr: "found_runs (analyze_free_blocks [5, 1, 2, 9, 4]) = [[1, 2], [4, 5], [9]]"
    by metis
  from t ne obtain m where m: "metrics (analyze_free_blocks [5, 1, 2, 9, 4]) = Some m"
    "num_runs m = length (found_runs (analyze_free_blocks [5, 1, 2, 9, 4]))"
    "\<forall>r\<in>set (found_runs (analyze_free_blocks [5, 1, 2, 9, 4])). length r \<le> largest_run m"
    "\<exists>r\<in>set (found_runs (analyze_free_blocks [5, 1, 2, 9, 4])). length r = largest_run m"
    by blast
  from m(3,4) have "largest_run m = 2" unfolding fr by auto
  with m(1,2) fr h show ?thesis by simp
qed

text \<open>
  Claim C3 as it is written asks for the ratio 0 when there are no free blocks. With no free
  blocks the analyzer finds no run and reports no ratio.
\<close>

theorem external_frag_no_metrics_for_empty: "metrics (analyze_free_blocks []) = None"
  by (simp add: analyze_free_blocks_def find_runs_def fragmentation_metrics_def)

text \<open>
  Claim C3, as amended. For a non-empty list of free block ids the reported external
  fragmentation ratio is \<open>1 - largest_run / total_free\<close>, with \<open>total_free\<close> the number of ids,
  and it is 0 when the sorted ids are one contiguous run. For the empty list no metrics are
  reported at all.
\<close>

theorem external_frag_ratio:
  "(ids = [] \<longrightarrow> metrics (analyze_free_blocks ids) = None)
   \<and> (ids \<noteq> [] \<longrightarrow> (\<exists>m. metrics (analyze_free_blocks ids) = Some m
         \<and> total_free m = length ids
         \<and> external_frag m = 1 - of_nat (largest_run m) / of_nat (total_free m)
         \<and> (consecutive (sort ids) \<longrightarrow> external_frag m = 0)))"
proof -
  let ?runs = "find_runs (sort ids)"
  have me: "metrics (analyze_free_blocks ids) = fragmentation_metrics (sort ids) ?runs"
    by (simp add: analyze_free_blocks_def Let_def)
  have a: "ids = [] \<longrightarrow> fragmentation_metrics (sort ids) ?runs = None"
    by (simp add: fragmentation_metrics_def find_runs_def)
  have b: "ids \<noteq> [] \<longrightarrow> (\<exists>m. fragmentation_metrics (sort ids) ?runs = Some m
         \<and> total_free m = length ids
         \<and> external_frag m = 1 - of_nat (largest_run m) / of_nat (total_free m)
         \<and> (consecutive (sort ids) \<longrightarrow> external_frag m = 0))"
  proof
    assume ids: "ids \<noteq> []"
    then have ne: "?runs \<noteq> []" by (simp add: find_runs_Nil_iff sort_Nil_iff)
    have one: "consecutive (sort ids) \<longrightarrow> ?runs = [sort ids]"
    proof
      assume "consecutive (sort ids)"
      with ids have "maximal_runs [sort ids] (sort ids)" by (simp add: maximal_runs_def sort_Nil_iff)
      then show "?runs = [sort ids]" by (rule maximal_runs_unique)
    qed
    show "\<exists>m. fragmentation_metrics (sort ids) ?runs = Some m
         \<and> total_free m = length ids
         \<and> external_frag m = 1 - of_nat (largest_run m) / of_nat (total_free m)
         \<and> (consecutive (sort ids) \<longrightarrow> external_frag m = 0)"
    proof (cases "consecutive (sort ids)")
      case True
      with one have r: "?runs = [sort ids]" by simp
      have "fragmentation_metrics (sort ids) [sort ids] = Some
        \<lparr>num_runs = 1, largest_run = length ids, average_run = of_nat (length ids) / 1,
         total_free = length ids, external_frag = 0\<rparr>"
        using ids by (simp add: fragmentation_metrics_def sort_Nil_iff Let_def)
      then show ?thesis using ids unfolding r by simp
    next
      case False
      then show ?thesis using ids by (simp add: metrics_Some [OF ne] sort_Nil_iff)
    qed
  qed
  show ?thesis unfolding me using a b by blast
qed

theorem external_frag_ratio_witness:
  "metrics (analyze_free_blocks []) = None
   \<and> consecutive (sort [3, 1, 2])
   \<and> (\<exists>m. metrics (analyze_free_blocks [3, 1, 2]) = Some m \<and> total_free m = 3
          \<and> external_frag m = 0)"
proof -
  have c: "consecutive (sort [3, 1, 2])" by simp
  have ne: "[3, 1, 2] \<noteq> ([] :: int list)" by simp
  from external_frag_ratio [of "[3, 1, 2]"] ne c
  have "\<exists>m. metrics (analyze_free_blocks [3, 1, 2]) = Some m \<and> total_free m = 3
          \<and> external_frag m = 0" by auto
  moreover from external_frag_ratio [of "[]"] have "metrics (analyze_free_blocks []) = None"
    by simp
  ultimately show ?thesis using c by blast
qed

text \<open>
  Claim C8. For a non-empty list of free block ids the reported mean run size is the sum of
  the lengths of the runs divided by the number of runs, which is the number of free blocks
  divided by the number of runs; the number of runs is not zero.
\<close>

theorem average_run_size:
  assumes "ids \<noteq> []"
  shows "\<exists>m. metrics (analyze_free_blocks ids) = Some m
        \<and> num_runs m = length (found_runs (analyze_free_blocks ids))
        \<and> 0 < num_runs m
        \<and> average_run m =
            of_nat (sum_list (map length (found_runs (analyze_free_blocks ids)))) / of_nat (num_runs m)
        \<and> average_run m = of_nat (length ids) / of_nat (num_runs m)"
proof -
  let ?runs = "find_runs (sort ids)"
  have fr: "found_runs (analyze_free_blocks ids) = ?runs"
    by (simp add: analyze_free_blocks_def Let_def)
  have me: "metrics (analyze_free_blocks ids) = fragmentation_metrics (sort ids) ?runs"
    by (simp add: analyze_free_blocks_def Let_def)
  from assms have ne: "?runs \<noteq> []" by (simp add: find_runs_Nil_iff sort_Nil_iff)
  have "sum_list (map length ?runs) = length ids"
    by (simp add: find_runs_lengths)
  then show ?thesis unfolding fr me using ne by (simp add: metrics_Some [OF ne])
qed

theorem average_run_size_witness:
  "\<exists>m. metrics (analyze_free_blocks [5, 1, 2, 9, 4]) = Some m \<and> num_runs m = 3
      \<and> average_run m = 5 / 3"
proof -
  have ne: "[5, 1, 2, 9, 4] \<noteq> ([] :: int list)" by simp
  have fr: "found_runs (analyze_free_blocks [5, 1, 2, 9, 4]) = [[1, 2], [4, 5], [9]]"
    by (simp add: analyze_free_blocks_def find_runs_def Let_def)
  from average_run_size [OF ne] show ?thesis unfolding fr by auto
qed

text \<open>
  Claim C9. For a non-empty ascending list the run-building loop yields runs that partition
  the input: the runs in order make up the input, so every position of the input lies in
  exactly one run; every run is non-empty; the run lengths add up to the length of the input.
  When the ids are pairwise different, as the ids of a free queue are, every id lies in exactly
  one run.
\<close>

theorem run_loop_partitions_input:
  assumes "ids \<noteq> []" and "sorted ids"
  shows "find_runs ids \<noteq> []
       \<and> concat (find_runs ids) = ids
       \<and> (\<forall>r\<in>set (find_runs ids). r \<noteq> [])
       \<and> sum_list (map length (find_runs ids)) = length ids
       \<and> (distinct ids \<longrightarrow>
            (\<forall>x\<in>set ids. \<exists>!i. i < length (find_runs ids) \<and> x \<in> set (find_runs ids ! i)))"
proof -
  let ?rs = "find_runs ids"
  have a: "?rs \<noteq> []" using assms(1) by (simp add: find_runs_Nil_iff)
  have b: "concat ?rs = ids" by (rule find_runs_concat)
  have c: "\<forall>r\<in>set ?rs. r \<noteq> []"
  proof
    fix r assume "r \<in> set ?rs"
    then show "r \<noteq> []" by (rule find_runs_nonempty)
  qed
  have d: "sum_list (map length ?rs) = length ids" by (rule find_runs_lengths)
  have e: "distinct ids \<longrightarrow> (\<forall>x\<in>set ids. \<exists>!i. i < length ?rs \<and> x \<in> set (?rs ! i))"
  proof (intro impI ballI)
    fix x
    assume dist: "distinct ids" and x: "x \<in> set ids"
    from x b have "x \<in> set (concat ?rs)" by simp
    then obtain r where r: "r \<in> set ?rs" and xr: "x \<in> set r" by auto
    from r obtain i where i: "i < length ?rs" and ri: "?rs ! i = r"
      unfolding in_set_conv_nth by blast
    from dist b have dc: "distinct (concat ?rs)" by simp
    show "\<exists>!i. i < length ?rs \<and> x \<in> set (?rs ! i)"
    proof (rule ex1I [of _ i])
      show "i < length ?rs \<and> x \<in> set (?rs ! i)" using i ri xr by simp
    next
      fix j assume j: "j < length ?rs \<and> x \<in> set (?rs ! j)"
      then have "j < length ?rs" and "x \<in> set (?rs ! j)" by simp_all
      moreover have "x \<in> set (?rs ! i)" using ri xr by simp
      ultimately show "j = i" using distinct_concat_index [OF dc _ i] by blast
    qed
  qed
  from a b c d e show ?thesis by blast
qed

theorem run_loop_partitions_input_witness:
  "find_runs [1, 2, 4, 5, 9] = [[1, 2], [4, 5], [9]]
   \<and> concat (find_runs [1, 2, 4, 5, 9]) = [1, 2, 4, 5, 9]
   \<and> sum_list (map length (find_runs [1, 2, 4, 5, 9])) = 5
   \<and> (\<exists>!i. i < length (find_runs [1, 2, 4, 5, 9]) \<and> 4 \<in> set (find_runs [1, 2, 4, 5, 9] ! i))"
proof -
  have ne: "[1, 2, 4, 5, 9] \<noteq> ([] :: int list)" by simp
  have so: "sorted [1, 2, 4, 5, 9 :: int]" by simp
  have di: "distinct [1, 2, 4, 5, 9 :: int]" by simp
  have fr: "find_runs [1, 2, 4, 5, 9] = [[1, 2], [4, 5], [9]]" by (simp add: find_runs_def)
  from run_loop_partitions_input [OF ne so] di
  have "concat (find_runs [1, 2, 4, 5, 9]) = [1, 2, 4, 5, 9]"
    and "sum_list (map length (find_runs [1, 2, 4, 5, 9])) = length [1, 2, 4, 5, 9 :: int]"
    and "\<forall>x\<in>set [1, 2, 4, 5, 9].
         \<exists>!i. i < length (find_runs [1, 2, 4, 5, 9]) \<and> x \<in> set (find_runs [1, 2, 4, 5, 9] ! i)"
    by blast+
  moreover have "(4 :: int) \<in> set [1, 2, 4, 5, 9]" by simp
  ultimately have "concat (find_runs [1, 2, 4, 5, 9]) = [1, 2, 4, 5, 9]"
    and "sum_list (map length (find_runs [1, 2, 4, 5, 9])) = 5"
    and "\<exists>!i. i < length (find_runs [1, 2, 4, 5, 9]) \<and> 4 \<in> set (find_runs [1, 2, 4, 5, 9] ! i)"
    by (simp, simp, blast)
  with fr show ?thesis by blast
qed

text \<open>
  Claim C10. On the branch where the list of runs is not empty, the list of free block ids is
  not empty either: the divisor \<^verbatim>\<open>len(free_block_ids)\<close> is not zero and the external
  fragmentation is the value of the first branch of the conditional expression, never the
  \<^verbatim>\<open>else 0\<close>.
\<close>

theorem external_frag_division_defined:
  assumes "find_runs free_block_ids \<noteq> []"
  shows "free_block_ids \<noteq> [] \<and> length free_block_ids \<noteq> 0
       \<and> (\<exists>m. fragmentation_metrics free_block_ids (find_runs free_block_ids) = Some m
              \<and> external_frag m = 1 - of_nat (largest_run m) / of_nat (length free_block_ids))"
proof -
  from assms have "free_block_ids \<noteq> []" by (simp add: find_runs_Nil_iff)
  then show ?thesis by (simp add: metrics_Some [OF assms])
qed

theorem external_frag_division_defined_witness:
  "find_runs [1, 2, 4] \<noteq> []
   \<and> (\<exists>m. fragmentation_metrics [1, 2, 4] (find_runs [1, 2, 4]) = Some m
          \<and> external_frag m = 1 - of_nat (largest_run m) / 3)"
proof -
  have h: "find_runs [1, 2, 4] \<noteq> []" by (simp add: find_runs_def)
  from external_frag_division_defined [OF h] h show ?thesis by simp
qed

section \<open>Properties of the block pool\<close>

subsection \<open>Auxiliary facts\<close>

lemma foldr_push_front: "foldr push_front popped q = popped @ q"
  by (induction popped) (simp_all add: push_front_def)

lemma pop_blocks_closed:
  "pop_blocks n q popped =
     (if n \<le> length q then (drop n q, Inr (popped @ take n q))
      else (popped @ q, Inl InsufficientCapacity))"
proof (induction n arbitrary: q popped)
  case 0
  show ?case by simp
next
  case (Suc n)
  show ?case
  proof (cases q)
    case Nil
    then show ?thesis by (simp add: foldr_push_front)
  next
    case (Cons b q')
    then show ?thesis using Suc.IH [of q' "popped @ [b]"] by simp
  qed
qed

lemma release_singleton:
  "release p [b] = (case release_block p b of Inl e \<Rightarrow> (p, Inl e) | Inr p' \<Rightarrow> (p', Inr ()))"
  by (simp add: release_def split: sum.splits)

lemma release_block_capacity:
  "release_block p b = Inr p' \<Longrightarrow> b < capacity p \<and> capacity p' = capacity p"
  by (auto simp: release_block_def capacity_def Let_def split: if_splits)

lemma pool_wf_iff:
  "pool_wf p \<longleftrightarrow>
     distinct (free_block_queue p) \<and>
     set (free_block_queue p) = {i. i < capacity p \<and> ref_count (blocks p ! i) = 0}"
  by (auto simp: pool_wf_def)

lemma count_zero_refs:
  "length (filter (\<lambda>b. ref_count (xs ! b) = 0) [0..<length xs])
     = length (filter (\<lambda>blk. ref_count blk = 0) xs)"
proof -
  have "filter (\<lambda>blk. ref_count blk = 0) (map (nth xs) [0..<length xs])
          = map (nth xs) (filter ((\<lambda>blk. ref_count blk = 0) \<circ> nth xs) [0..<length xs])"
    by (rule filter_map)
  then have "length (filter (\<lambda>blk. ref_count blk = 0) xs)
          = length (filter ((\<lambda>blk. ref_count blk = 0) \<circ> nth xs) [0..<length xs])"
    by (simp add: map_nth)
  then show ?thesis by (simp add: comp_def)
qed

lemma pool_wf_count:
  assumes "pool_wf p"
  shows "free_count p + referenced_count p = capacity p"
proof -
  let ?xs = "blocks p"
  let ?zero = "filter (\<lambda>b. ref_count (?xs ! b) = 0) [0..<length ?xs]"
  from assms have d: "distinct (free_block_queue p)"
    and s: "set (free_block_queue p) = set ?zero"
    by (simp_all add: pool_wf_def capacity_def)
  have "length (free_block_queue p) = card (set (free_block_queue p))"
    using d by (simp add: distinct_card)
  also have "\<dots> = card (set ?zero)" using s by simp
  also have "\<dots> = length ?zero"
  proof (rule distinct_card)
    show "distinct ?zero" by simp
  qed
  also have "\<dots> = length (filter (\<lambda>blk. ref_count blk = 0) ?xs)" by (rule count_zero_refs)
  finally have f: "free_count p = length (filter (\<lambda>blk. ref_count blk = 0) ?xs)"
    by (simp add: free_count_def)
  have "length (filter (\<lambda>blk. ref_count blk = 0) ?xs)
          + length (filter (\<lambda>blk. \<not> ref_count blk = 0) ?xs) = length ?xs"
    by (rule sum_length_filter_compl)
  with f show ?thesis by (simp add: referenced_count_def capacity_def)
qed

lemma claim_block_queue: "free_block_queue (claim_block b p) = free_block_queue p"
  by (simp add: claim_block_def Let_def)

lemma claim_block_capacity: "capacity (claim_block b p) = capacity p"
  by (simp add: claim_block_def Let_def capacity_def)

lemma claim_block_ref:
  "i < capacity p \<Longrightarrow>
   ref_count (blocks (claim_block b p) ! i) = (if i = b then 1 else ref_count (blocks p ! i))"
  by (simp add: claim_block_def Let_def capacity_def nth_list_update)

lemma fold_claim_queue: "free_block_queue (fold claim_block bs p) = free_block_queue p"
  by (induction bs arbitrary: p) (simp_all add: claim_block_queue)

lemma fold_claim_capacity: "capacity (fold claim_block bs p) = capacity p"
  by (induction bs arbitrary: p) (simp_all add: claim_block_capacity)

lemma fold_claim_ref:
  "i < capacity p \<Longrightarrow>
   ref_count (blocks (fold claim_block bs p) ! i)
     = (if i \<in> set bs then 1 else ref_count (blocks p ! i))"
proof (induction bs arbitrary: p rule: rev_induct)
  case Nil
  show ?case by simp
next
  case (snoc b bs)
  from snoc.prems have "i < capacity (fold claim_block bs p)" by (simp add: fold_claim_capacity)
  then have "ref_count (blocks (claim_block b (fold claim_block bs p)) ! i)
      = (if i = b then 1 else ref_count (blocks (fold claim_block bs p) ! i))"
    by (rule claim_block_ref)
  with snoc.IH [OF snoc.prems] show ?case by simp
qed

lemma allocate_success:
  "n \<le> free_count p \<Longrightarrow>
   allocate p n =
     (fold claim_block (take n (free_block_queue p))
        (p\<lparr>free_block_queue := drop n (free_block_queue p)\<rparr>),
      Inr (take n (free_block_queue p)))"
  by (simp add: allocate_def pop_blocks_closed free_count_def)

lemma allocate_failure:
  "\<not> n \<le> free_count p \<Longrightarrow> allocate p n = (p, Inl InsufficientCapacity)"
  by (simp add: allocate_def pop_blocks_closed free_count_def)

lemma pool_wf_allocate:
  assumes "pool_wf p"
  shows "pool_wf (fst (allocate p n)) \<and> capacity (fst (allocate p n)) = capacity p"
proof (cases "n \<le> free_count p")
  case False
  with assms show ?thesis by (simp add: allocate_failure)
next
  case True
  let ?q = "free_block_queue p"
  let ?p0 = "p\<lparr>free_block_queue := drop n ?q\<rparr>"
  let ?p' = "fold claim_block (take n ?q) ?p0"
  have res: "fst (allocate p n) = ?p'" using True by (simp add: allocate_success)
  have cap0: "capacity ?p0 = capacity p" by (simp add: capacity_def)
  have cap: "capacity ?p' = capacity p" by (simp add: fold_claim_capacity cap0)
  have q': "free_block_queue ?p' = drop n ?q" by (simp add: fold_claim_queue)
  from assms have d: "distinct ?q"
    and s: "set ?q = {i. i < capacity p \<and> ref_count (blocks p ! i) = 0}"
    by (simp_all add: pool_wf_iff)
  have ref: "\<And>i. i < capacity p \<Longrightarrow>
      ref_count (blocks ?p' ! i) = (if i \<in> set (take n ?q) then 1 else ref_count (blocks p ! i))"
    using fold_claim_ref [of _ ?p0 "take n ?q"] cap0 by simp
  have split: "set ?q = set (take n ?q) \<union> set (drop n ?q)"
    by (metis append_take_drop_id set_append)
  have disj: "set (take n ?q) \<inter> set (drop n ?q) = {}"
    using d by (metis append_take_drop_id distinct_append)
  have "set (drop n ?q) = {i. i < capacity p \<and> ref_count (blocks ?p' ! i) = 0}"
  proof (rule set_eqI)
    fix i
    show "i \<in> set (drop n ?q) \<longleftrightarrow> i \<in> {i. i < capacity p \<and> ref_count (blocks ?p' ! i) = 0}"
    proof
      assume a: "i \<in> set (drop n ?q)"
      with split have "i \<in> set ?q" by simp
      with s have b: "i < capacity p" and c: "ref_count (blocks p ! i) = 0" by simp_all
      from a disj have "i \<notin> set (take n ?q)" by blast
      with ref [OF b] c have "ref_count (blocks ?p' ! i) = 0" by simp
      with b show "i \<in> {i. i < capacity p \<and> ref_count (blocks ?p' ! i) = 0}" by simp
    next
      assume "i \<in> {i. i < capacity p \<and> ref_count (blocks ?p' ! i) = 0}"
      then have b: "i < capacity p" and c: "ref_count (blocks ?p' ! i) = 0" by simp_all
      from ref [OF b] c have nt: "i \<notin> set (take n ?q)" and "ref_count (blocks p ! i) = 0"
        by (simp_all split: if_splits)
      with b s have "i \<in> set ?q" by simp
      with split nt show "i \<in> set (drop n ?q)" by simp
    qed
  qed
  with d q' cap have "pool_wf ?p'" by (simp add: pool_wf_iff)
  with res cap show ?thesis by simp
qed

lemma pool_wf_retain:
  assumes "pool_wf p"
  shows "pool_wf (fst (retain p b)) \<and> capacity (fst (retain p b)) = capacity p"
proof (cases "b < capacity p \<and> 0 < ref_count (blocks p ! b)")
  case False
  then have "retain p b = (p, Inl InvariantViolation)" unfolding retain_def by (rule if_not_P)
  with assms show ?thesis by simp
next
  case True
  let ?p' = "p\<lparr>blocks := (blocks p)[b := (blocks p ! b)\<lparr>ref_count := ref_count (blocks p ! b) + 1\<rparr>]\<rparr>"
  have res: "fst (retain p b) = ?p'" using True by (simp add: retain_def)
  have cap: "capacity ?p' = capacity p" by (simp add: capacity_def)
  have "\<And>i. i < capacity p \<Longrightarrow>
      (ref_count (blocks ?p' ! i) = 0) = (ref_count (blocks p ! i) = 0)"
    using True by (auto simp: capacity_def nth_list_update)
  then have "{i. i < capacity p \<and> ref_count (blocks ?p' ! i) = 0}
      = {i. i < capacity p \<and> ref_count (blocks p ! i) = 0}" by blast
  with assms cap have "pool_wf ?p'" by (simp add: pool_wf_iff)
  with res cap show ?thesis by simp
qed

lemma pool_wf_release_block:
  assumes "pool_wf p" and "release_block p b = Inr p'"
  shows "pool_wf p' \<and> capacity p' = capacity p"
proof -
  from assms(2) have b: "b < capacity p" and pos: "ref_count (blocks p ! b) \<noteq> 0"
    by (auto simp: release_block_def split: if_splits)
  let ?blk = "(blocks p ! b)\<lparr>ref_count := ref_count (blocks p ! b) - 1\<rparr>"
  let ?p1 = "p\<lparr>blocks := (blocks p)[b := ?blk]\<rparr>"
  from assms(1) have d: "distinct (free_block_queue p)"
    and s: "set (free_block_queue p) = {i. i < capacity p \<and> ref_count (blocks p ! i) = 0}"
    by (simp_all add: pool_wf_iff)
  from s pos have notin: "b \<notin> set (free_block_queue p)" by simp
  have ref: "\<And>i. i < capacity p \<Longrightarrow>
      ref_count (blocks ?p1 ! i) = (if i = b then ref_count (blocks p ! b) - 1 else ref_count (blocks p ! i))"
    by (simp add: capacity_def nth_list_update)
  show ?thesis
  proof (cases "ref_count (blocks p ! b) - 1 = 0")
    case True
    then have p': "p' = ?p1\<lparr>free_block_queue := push_back b (free_block_queue p)\<rparr>"
      using assms(2) b pos by (simp add: release_block_def Let_def)
    have cap: "capacity p' = capacity p" by (simp add: p' capacity_def)
    have bl: "blocks p' = blocks ?p1" by (simp add: p')
    have q: "free_block_queue p' = free_block_queue p @ [b]" by (simp add: p' push_back_def)
    have "set (free_block_queue p @ [b]) = {i. i < capacity p \<and> ref_count (blocks ?p1 ! i) = 0}"
      using s b True ref by (auto split: if_splits)
    with d notin q cap bl have "pool_wf p'" by (simp add: pool_wf_iff)
    with cap show ?thesis by simp
  next
    case False
    then have p': "p' = ?p1" using assms(2) b pos by (simp add: release_block_def Let_def)
    have cap: "capacity p' = capacity p" by (simp add: p' capacity_def)
    have "{i. i < capacity p \<and> ref_count (blocks ?p1 ! i) = 0}
        = {i. i < capacity p \<and> ref_count (blocks p ! i) = 0}"
      using False pos ref by (auto split: if_splits)
    with d s cap p' have "pool_wf p'" by (simp add: pool_wf_iff)
    with cap show ?thesis by simp
  qed
qed

lemma pool_wf_release_all:
  "pool_wf p \<Longrightarrow> release_all p bs = Inr p' \<Longrightarrow> pool_wf p' \<and> capacity p' = capacity p"
proof (induction bs arbitrary: p)
  case Nil
  then show ?case by simp
next
  case (Cons b bs)
  from Cons.prems(2) obtain p1 where r: "release_block p b = Inr p1"
    and rest: "release_all p1 bs = Inr p'"
    by (auto split: sum.splits)
  from pool_wf_release_block [OF Cons.prems(1) r] have "pool_wf p1" and c: "capacity p1 = capacity p"
    by simp_all
  with Cons.IH [OF _ rest] show ?case by simp
qed

lemma pool_wf_release:
  assumes "pool_wf p"
  shows "pool_wf (fst (release p bs)) \<and> capacity (fst (release p bs)) = capacity p"
proof (cases "release_all p bs")
  case (Inl e)
  with assms show ?thesis by (simp add: release_def)
next
  case (Inr p')
  with pool_wf_release_all [OF assms Inr] show ?thesis by (simp add: release_def)
qed

lemma pool_wf_try_cache_lookup:
  assumes "pool_wf p"
  shows "pool_wf (fst (try_cache_lookup p key))
       \<and> capacity (fst (try_cache_lookup p key)) = capacity p"
proof (cases "index_lookup key (cache_index p)")
  case None
  with assms show ?thesis by (simp add: try_cache_lookup_def)
next
  case (Some b)
  show ?thesis
  proof (cases "b < capacity p")
    case False
    with Some assms show ?thesis by (simp add: try_cache_lookup_def)
  next
    case True
    let ?q = "if ref_count (blocks p ! b) = 0 then queue_remove b (free_block_queue p)
              else free_block_queue p"
    let ?blk = "(blocks p ! b)\<lparr>ref_count := ref_count (blocks p ! b) + 1\<rparr>"
    let ?p' = "p\<lparr>blocks := (blocks p)[b := ?blk], free_block_queue := ?q\<rparr>"
    have res: "fst (try_cache_lookup p key) = ?p'"
      using Some True by (simp add: try_cache_lookup_def Let_def)
    have cap: "capacity ?p' = capacity p" by (simp add: capacity_def)
    from assms have d: "distinct (free_block_queue p)"
      and s: "set (free_block_queue p) = {i. i < capacity p \<and> ref_count (blocks p ! i) = 0}"
      by (simp_all add: pool_wf_iff)
    have ref: "\<And>i. i < capacity p \<Longrightarrow>
        ref_count (blocks ?p' ! i) = (if i = b then ref_count (blocks p ! b) + 1 else ref_count (blocks p ! i))"
      by (simp add: capacity_def nth_list_update)
    have dq: "distinct ?q" using d by (simp add: queue_remove_def)
    have "set ?q = set (free_block_queue p) - {b}"
    proof (cases "ref_count (blocks p ! b) = 0")
      case True
      then show ?thesis using d by (simp add: queue_remove_def)
    next
      case False
      with s have "b \<notin> set (free_block_queue p)" by simp
      with False show ?thesis by simp
    qed
    also have "\<dots> = {i. i < capacity p \<and> ref_count (blocks ?p' ! i) = 0}"
      using s ref by (auto split: if_splits)
    finally have "set ?q = {i. i < capacity p \<and> ref_count (blocks ?p' ! i) = 0}" .
    with dq cap have "pool_wf ?p'" by (simp add: pool_wf_iff)
    with res cap show ?thesis by simp
  qed
qed

lemma pool_wf_exec_op:
  "pool_wf p \<Longrightarrow> pool_wf (exec_op p x) \<and> capacity (exec_op p x) = capacity p"
  by (cases x)
    (simp_all add: pool_wf_allocate pool_wf_retain pool_wf_release pool_wf_try_cache_lookup)

lemma pool_wf_run_ops:
  "pool_wf p \<Longrightarrow> pool_wf (run_ops p ops) \<and> capacity (run_ops p ops) = capacity p"
proof (induction ops arbitrary: p)
  case Nil
  then show ?case by simp
next
  case (Cons x xs)
  from pool_wf_exec_op [OF Cons.prems, of x]
  have "pool_wf (exec_op p x)" and "capacity (exec_op p x) = capacity p" by simp_all
  with Cons.IH [of "exec_op p x"] show ?case by simp
qed

lemma pool_wf_new_pool: "pool_wf (new_pool cap hbs) \<and> capacity (new_pool cap hbs) = cap"
  by (auto simp: pool_wf_iff new_pool_def capacity_def)

lemma scenario_value:
  "simulate_fragmentation_scenario =
     Inr \<lparr>free_after_allocations = 17, free_after_release = 32,
          free_ids = [33, 34, 35, 36, 37, 38, 39, 40, 41, 42, 43, 44, 45, 46, 47, 48,
                      49, 10, 11, 12, 13, 14, 15, 16, 17, 18, 19, 20, 21, 22, 23, 24],
          report =
            \<lparr>sorted_ids = [10, 11, 12, 13, 14, 15, 16, 17, 18, 19, 20, 21, 22, 23, 24,
                           33, 34, 35, 36, 37, 38, 39, 40, 41, 42, 43, 44, 45, 46, 47, 48, 49],
             found_runs = [[10, 11, 12, 13, 14, 15, 16, 17, 18, 19, 20, 21, 22, 23, 24],
                           [33, 34, 35, 36, 37, 38, 39, 40, 41, 42, 43, 44, 45, 46, 47, 48, 49]],
             metrics = Some \<lparr>num_runs = 2, largest_run = 17, average_run = 16,
                             total_free = 32, external_frag = 15 / 32\<rparr>\<rparr>\<rparr>"
  by code_simp

lemma claimed_ids_list:
  "{10..24} \<union> {41..49 :: int} = set ([10..24] @ [41..49])
   \<and> sorted ([10..24] @ [41..49 :: int])
   \<and> distinct ([10..24] @ [41..49 :: int])
   \<and> length ([10..24] @ [41..49 :: int]) = 24"
  by code_simp

lemma claimed_ids_card: "card ({10..24} \<union> {41..49 :: int}) = 24"
proof -
  have "card (set ([10..24] @ [41..49 :: int])) = length ([10..24] @ [41..49 :: int])"
  proof (rule distinct_card)
    show "distinct ([10..24] @ [41..49 :: int])" using claimed_ids_list by blast
  qed
  with claimed_ids_list show ?thesis by simp
qed

lemma card_differs: "card A = m \<Longrightarrow> card B = n \<Longrightarrow> m \<noteq> n \<Longrightarrow> A \<noteq> B"
  by auto

lemma claimed_ids_sorted:
  assumes "distinct ids" and "set ids = {10..24} \<union> {41..49 :: int}"
  shows "sort ids = [10..24] @ [41..49]"
proof (rule sorted_distinct_set_unique)
  show "sorted (sort ids)" by simp
  show "distinct (sort ids)" using assms(1) by simp
  show "sorted ([10..24] @ [41..49 :: int])" using claimed_ids_list by blast
  show "distinct ([10..24] @ [41..49 :: int])" using claimed_ids_list by blast
  show "set (sort ids) = set ([10..24] @ [41..49])" using assms(2) claimed_ids_list by simp
qed

lemma claimed_ids_metrics:
  "fragmentation_metrics ([10..24] @ [41..49]) (find_runs ([10..24] @ [41..49]))
     = Some \<lparr>num_runs = 2, largest_run = 15, average_run = 12, total_free = 24,
             external_frag = 1 - 15 / 24\<rparr>"
  by code_simp

lemma wf_free_ids_card:
  assumes "pool_wf p"
  shows "distinct (map int (free_block_queue p))
       \<and> card (set (map int (free_block_queue p))) = free_count p"
proof -
  from assms have "distinct (free_block_queue p)" by (simp add: pool_wf_def)
  then have d: "distinct (map int (free_block_queue p))" by (simp add: distinct_map)
  then have "card (set (map int (free_block_queue p))) = length (map int (free_block_queue p))"
    by (rule distinct_card)
  with d show ?thesis by (simp add: free_count_def)
qed

subsection \<open>The claims about the pool\<close>

text \<open>
  Claim C5. An allocation of more blocks than are free raises \<^verbatim>\<open>InsufficientCapacity\<close> and
  leaves the pool as it was before the call: the number of free blocks is unchanged, and the
  blocks that the failed attempt popped (the loop pops every free block before the queue runs
  empty) are back at the front of the queue in their original order, so that the queue is the
  one before the call.
\<close>

theorem allocate_insufficient_capacity:
  assumes "free_count p < n"
  shows "allocate p n = (p, Inl InsufficientCapacity)
       \<and> free_count (fst (allocate p n)) = free_count p
       \<and> free_block_queue (fst (allocate p n)) = free_block_queue p
       \<and> pop_blocks n (free_block_queue p) [] = (free_block_queue p, Inl InsufficientCapacity)"
proof -
  from assms have "\<not> n \<le> length (free_block_queue p)" by (simp add: free_count_def)
  then have pb: "pop_blocks n (free_block_queue p) [] = (free_block_queue p, Inl InsufficientCapacity)"
    by (simp add: pop_blocks_closed)
  then have "allocate p n = (p, Inl InsufficientCapacity)" by (simp add: allocate_def)
  with pb show ?thesis by simp
qed

theorem allocate_insufficient_capacity_witness:
  "free_count (fst (allocate (new_pool 3 16) 2)) = 1
   \<and> allocate (fst (allocate (new_pool 3 16) 2)) 2
       = (fst (allocate (new_pool 3 16) 2), Inl InsufficientCapacity)
   \<and> free_block_queue (fst (allocate (fst (allocate (new_pool 3 16) 2)) 2)) = [2]"
proof -
  let ?p = "fst (allocate (new_pool 3 16) 2)"
  have q: "free_block_queue ?p = [2]"
    by (simp add: allocate_def new_pool_def pop_blocks_closed claim_block_def upt_rec)
  then have fc: "free_count ?p = 1" by (simp add: free_count_def)
  then have h: "free_count ?p < 2" by simp
  from allocate_insufficient_capacity [OF h] q fc show ?thesis by simp
qed

text \<open>
  Claim C6. Inserting a second block with a different id under a key under which a first block
  has just been inserted changes nothing: the size of the index after the second insert is the
  size after the first, and the lookup of the key returns what it returned after the first
  insert, which is the first block when the key was not mapped before.
\<close>

theorem index_insert_first_writer_wins:
  assumes "b1 \<noteq> b2"
  shows "index_insert key b2 (index_insert key b1 idx) = index_insert key b1 idx
       \<and> index_size (index_insert key b2 (index_insert key b1 idx))
           = index_size (index_insert key b1 idx)
       \<and> index_lookup key (index_insert key b2 (index_insert key b1 idx))
           = index_lookup key (index_insert key b1 idx)
       \<and> (index_lookup key idx = None \<longrightarrow>
            index_lookup key (index_insert key b1 idx) = Some b1
          \<and> index_lookup key (index_insert key b2 (index_insert key b1 idx)) = Some b1)"
proof -
  have present: "map_of (index_insert key b1 idx) key \<noteq> None"
    by (auto simp: index_insert_def map_of_eq_None_iff)
  then have same: "index_insert key b2 (index_insert key b1 idx) = index_insert key b1 idx"
    by (simp add: index_insert_def)
  have fresh: "index_lookup key idx = None \<longrightarrow> index_lookup key (index_insert key b1 idx) = Some b1"
    by (simp add: index_lookup_def index_insert_def map_add_def [symmetric] map_add_Some_iff)
  from same fresh show ?thesis by simp
qed

theorem index_insert_first_writer_wins_witness:
  "index_lookup (''hash_0'', 0) [] = None
   \<and> index_size (index_insert (''hash_0'', 0) 100 (index_insert (''hash_0'', 0) 0 [])) = 1
   \<and> index_size (index_insert (''hash_0'', 0) 0 []) = 1
   \<and> index_lookup (''hash_0'', 0) (index_insert (''hash_0'', 0) 100 (index_insert (''hash_0'', 0) 0 []))
       = Some 0"
proof -
  have ne: "(0 :: nat) \<noteq> 100" by simp
  have fresh: "index_lookup (''hash_0'', 0) [] = None" by (simp add: index_lookup_def)
  have sz: "index_size (index_insert (''hash_0'', 0) 0 []) = 1"
    by (simp add: index_size_def index_insert_def)
  from index_insert_first_writer_wins [OF ne, of "(''hash_0'', 0)" "[]"] fresh sz
  show ?thesis by simp
qed

text \<open>
  Claim C7. When a block has been released and its reference count is 0 after that, releasing
  it again at once raises \<^verbatim>\<open>DoubleFreeError\<close>: the second call returns the error, not a
  success, and the pool is unchanged.
\<close>

theorem release_twice_double_free:
  assumes "release p [b] = (p', Inr ())" and "ref_count (blocks p' ! b) = 0"
  shows "release p' [b] = (p', Inl DoubleFreeError)"
proof -
  from assms(1) have "release_block p b = Inr p'"
    by (simp add: release_singleton split: sum.splits)
  then have "b < capacity p'" using release_block_capacity by simp
  with assms(2) have "release_block p' b = Inl DoubleFreeError"
    by (simp add: release_block_def)
  then show ?thesis by (simp add: release_singleton)
qed

theorem release_twice_double_free_witness:
  "release (fst (allocate (new_pool 2 16) 1)) [0]
     = (fst (release (fst (allocate (new_pool 2 16) 1)) [0]), Inr ())
   \<and> ref_count (blocks (fst (release (fst (allocate (new_pool 2 16) 1)) [0])) ! 0) = 0
   \<and> release (fst (release (fst (allocate (new_pool 2 16) 1)) [0])) [0]
     = (fst (release (fst (allocate (new_pool 2 16) 1)) [0]), Inl DoubleFreeError)"
proof -
  let ?p = "fst (allocate (new_pool 2 16) 1)"
  let ?p' = "fst (release ?p [0])"
  have a: "release ?p [0] = (?p', Inr ())" by code_simp
  have b: "ref_count (blocks ?p' ! 0) = 0" by code_simp
  from release_twice_double_free [OF a b] a b show ?thesis by simp
qed

text \<open>
  Claim C4. In a freshly constructed pool of capacity \<open>C\<close>, and in any pool that satisfies the
  invariant of the free queue, after every sequence of \<^verbatim>\<open>allocate\<close>, \<^verbatim>\<open>retain\<close>, \<^verbatim>\<open>release\<close>
  and \<^verbatim>\<open>try_cache_lookup\<close> calls, failed calls included, the number of free blocks plus the
  number of blocks with a reference count above 0 is the capacity.
\<close>

theorem free_plus_referenced_is_capacity:
  "free_count (run_ops (new_pool cap hbs) ops) + referenced_count (run_ops (new_pool cap hbs) ops)
     = cap
   \<and> (pool_wf p \<longrightarrow>
        pool_wf (run_ops p ops)
      \<and> capacity (run_ops p ops) = capacity p
      \<and> free_count (run_ops p ops) + referenced_count (run_ops p ops) = capacity p)"
proof -
  have a: "pool_wf p \<longrightarrow>
        pool_wf (run_ops p ops)
      \<and> capacity (run_ops p ops) = capacity p
      \<and> free_count (run_ops p ops) + referenced_count (run_ops p ops) = capacity p"
  proof
    assume wf: "pool_wf p"
    from pool_wf_run_ops [OF wf, of ops]
    have w: "pool_wf (run_ops p ops)" and c: "capacity (run_ops p ops) = capacity p" by simp_all
    from pool_wf_count [OF w] c w
    show "pool_wf (run_ops p ops)
      \<and> capacity (run_ops p ops) = capacity p
      \<and> free_count (run_ops p ops) + referenced_count (run_ops p ops) = capacity p" by simp
  qed
  have wf0: "pool_wf (new_pool cap hbs)" and c0: "capacity (new_pool cap hbs) = cap"
    using pool_wf_new_pool by simp_all
  from pool_wf_run_ops [OF wf0, of ops]
  have w: "pool_wf (run_ops (new_pool cap hbs) ops)"
    and c: "capacity (run_ops (new_pool cap hbs) ops) = cap" using c0 by simp_all
  from pool_wf_count [OF w] c a show ?thesis by simp
qed

theorem free_plus_referenced_is_capacity_witness:
  "pool_wf \<lparr>blocks = [\<lparr>ref_count = 0, content_hash = Some (''hash_0'', 0)\<rparr>,
                      \<lparr>ref_count = 1, content_hash = None\<rparr>,
                      \<lparr>ref_count = 0, content_hash = None\<rparr>],
            free_block_queue = [2, 0],
            cache_index = [((''hash_0'', 0), 0)],
            hash_block_size = 16\<rparr>
   \<and> free_count (run_ops
        \<lparr>blocks = [\<lparr>ref_count = 0, content_hash = Some (''hash_0'', 0)\<rparr>,
                   \<lparr>ref_count = 1, content_hash = None\<rparr>,
                   \<lparr>ref_count = 0, content_hash = None\<rparr>],
         free_block_queue = [2, 0],
         cache_index = [((''hash_0'', 0), 0)],
         hash_block_size = 16\<rparr>
        [TryCacheLookup (''hash_0'', 0), Retain 0, Retain 2, Release [0, 1], Release [1],
         Allocate 5, Allocate 1])
     + referenced_count (run_ops
        \<lparr>blocks = [\<lparr>ref_count = 0, content_hash = Some (''hash_0'', 0)\<rparr>,
                   \<lparr>ref_count = 1, content_hash = None\<rparr>,
                   \<lparr>ref_count = 0, content_hash = None\<rparr>],
         free_block_queue = [2, 0],
         cache_index = [((''hash_0'', 0), 0)],
         hash_block_size = 16\<rparr>
        [TryCacheLookup (''hash_0'', 0), Retain 0, Retain 2, Release [0, 1], Release [1],
         Allocate 5, Allocate 1]) = 3
   \<and> free_count (run_ops (new_pool 50 16) [Allocate 10, Allocate 15, Allocate 8])
     + referenced_count (run_ops (new_pool 50 16) [Allocate 10, Allocate 15, Allocate 8]) = 50"
proof -
  let ?p = "\<lparr>blocks = [\<lparr>ref_count = 0, content_hash = Some (''hash_0'', 0)\<rparr>,
                      \<lparr>ref_count = 1, content_hash = None\<rparr>,
                      \<lparr>ref_count = 0, content_hash = None\<rparr>],
            free_block_queue = [2, 0],
            cache_index = [((''hash_0'', 0), 0)],
            hash_block_size = 16\<rparr>"
  let ?ops = "[TryCacheLookup (''hash_0'', 0), Retain 0, Retain 2, Release [0, 1], Release [1],
         Allocate 5, Allocate 1]"
  have wf: "pool_wf ?p" by code_simp
  have cap: "capacity ?p = 3" by (simp add: capacity_def)
  note t1 = free_plus_referenced_is_capacity [of 50 16 "[Allocate 10, Allocate 15, Allocate 8]" ?p]
  note t2 = free_plus_referenced_is_capacity [of 3 16 ?ops ?p]
  from t1 have a: "free_count (run_ops (new_pool 50 16) [Allocate 10, Allocate 15, Allocate 8])
     + referenced_count (run_ops (new_pool 50 16) [Allocate 10, Allocate 15, Allocate 8]) = 50"
    by blast
  from t2 wf cap have b: "free_count (run_ops ?p ?ops) + referenced_count (run_ops ?p ?ops) = 3"
    by simp
  from wf a b show ?thesis by blast
qed

text \<open>
  Claim C1 as it is written gives \<open>{10..24} \<union> {41..49}\<close> as the ids of the 32 free blocks of the
  scenario. The set has 24 elements, the free blocks have 32 different ids.
\<close>

theorem scenario_free_ids_not_as_claimed:
  "free_after_release (projr simulate_fragmentation_scenario) = 32
   \<and> length (free_ids (projr simulate_fragmentation_scenario)) = 32
   \<and> distinct (free_ids (projr simulate_fragmentation_scenario))
   \<and> card ({10..24} \<union> {41..49 :: int}) = 24
   \<and> set (free_ids (projr simulate_fragmentation_scenario)) \<noteq> {10..24} \<union> {41..49}"
proof -
  let ?ids = "free_ids (projr simulate_fragmentation_scenario)"
  have a: "free_after_release (projr simulate_fragmentation_scenario) = 32"
    by (simp add: scenario_value)
  have l: "length ?ids = 32" by (simp add: scenario_value)
  have d: "distinct ?ids" by (simp add: scenario_value)
  from d have "card (set ?ids) = length ?ids" by (rule distinct_card)
  with l have "card (set ?ids) = 32" by simp
  then have "set ?ids \<noteq> {10..24} \<union> {41..49}"
    using claimed_ids_card by (rule card_differs) simp
  with a l d claimed_ids_card show ?thesis by blast
qed

text \<open>
  Claim C1, as amended. In the scenario, 17 blocks are free after the three allocations and
  32 after the release of the second request. The ids of the free blocks are then pairwise
  different and as many as the free count, 32, so they are not the 24 ids
  \<open>{10..24} \<union> {41..49}\<close>; in every pool that satisfies the invariant of the free queue the free
  blocks have as many different ids as the free count, whichever ids the pool has handed out,
  so their ids are not this set unless the free count is 24. On the ids
  \<open>{10..24} \<union> {41..49}\<close>, in any order, the analysis reports 2 runs, the largest run 15, the
  average run size 12, 24 free blocks and the ratio \<open>1 - 15/24\<close>.
\<close>

theorem scenario_free_blocks:
  "(\<exists>r. simulate_fragmentation_scenario = Inr r
        \<and> free_after_allocations r = 17
        \<and> free_after_release r = 32
        \<and> length (free_ids r) = free_after_release r
        \<and> distinct (free_ids r)
        \<and> set (free_ids r) \<noteq> {10..24} \<union> {41..49})
   \<and> (pool_wf p \<and> free_count p \<noteq> 24 \<longrightarrow>
        distinct (map int (free_block_queue p))
      \<and> card (set (map int (free_block_queue p))) = free_count p
      \<and> set (map int (free_block_queue p)) \<noteq> {10..24} \<union> {41..49})
   \<and> (distinct ids \<and> set ids = {10..24} \<union> {41..49} \<longrightarrow>
        length ids = 24
      \<and> metrics (analyze_free_blocks ids)
           = Some \<lparr>num_runs = 2, largest_run = 15, average_run = 12, total_free = 24,
                   external_frag = 1 - 15 / 24\<rparr>)"
proof -
  have a: "\<exists>r. simulate_fragmentation_scenario = Inr r
        \<and> free_after_allocations r = 17
        \<and> free_after_release r = 32
        \<and> length (free_ids r) = free_after_release r
        \<and> distinct (free_ids r)
        \<and> set (free_ids r) \<noteq> {10..24} \<union> {41..49}"
  proof -
    let ?ids = "[33, 34, 35, 36, 37, 38, 39, 40, 41, 42, 43, 44, 45, 46, 47, 48,
                 49, 10, 11, 12, 13, 14, 15, 16, 17, 18, 19, 20, 21, 22, 23, 24 :: int]"
    have d: "distinct ?ids" by simp
    then have "card (set ?ids) = length ?ids" by (rule distinct_card)
    moreover have "length ?ids = 32" by simp
    ultimately have "card (set ?ids) = 32" by (simp only:)
    then have "set ?ids \<noteq> {10..24} \<union> {41..49}"
      using claimed_ids_card by (rule card_differs) simp
    with d show ?thesis unfolding scenario_value by simp
  qed
  have b: "pool_wf p \<and> free_count p \<noteq> 24 \<longrightarrow>
        distinct (map int (free_block_queue p))
      \<and> card (set (map int (free_block_queue p))) = free_count p
      \<and> set (map int (free_block_queue p)) \<noteq> {10..24} \<union> {41..49}"
  proof
    assume h: "pool_wf p \<and> free_count p \<noteq> 24"
    with wf_free_ids_card [of p] have d: "distinct (map int (free_block_queue p))"
      and c: "card (set (map int (free_block_queue p))) = free_count p" by simp_all
    from h have n: "free_count p \<noteq> 24" by simp
    from c claimed_ids_card n
    have "set (map int (free_block_queue p)) \<noteq> {10..24} \<union> {41..49}"
      by (rule card_differs)
    with d c show "distinct (map int (free_block_queue p))
      \<and> card (set (map int (free_block_queue p))) = free_count p
      \<and> set (map int (free_block_queue p)) \<noteq> {10..24} \<union> {41..49}" by blast
  qed
  have c: "distinct ids \<and> set ids = {10..24} \<union> {41..49} \<longrightarrow>
        length ids = 24
      \<and> metrics (analyze_free_blocks ids)
           = Some \<lparr>num_runs = 2, largest_run = 15, average_run = 12, total_free = 24,
                   external_frag = 1 - 15 / 24\<rparr>"
  proof
    assume h: "distinct ids \<and> set ids = {10..24} \<union> {41..49}"
    then have s: "sort ids = [10..24] @ [41..49]" using claimed_ids_sorted by blast
    have "length ids = length (sort ids)" by simp
    with s claimed_ids_list have l: "length ids = 24" by simp
    have "metrics (analyze_free_blocks ids)
        = fragmentation_metrics (sort ids) (find_runs (sort ids))"
      by (simp add: analyze_free_blocks_def Let_def)
    with s claimed_ids_metrics have "metrics (analyze_free_blocks ids)
           = Some \<lparr>num_runs = 2, largest_run = 15, average_run = 12, total_free = 24,
                   external_frag = 1 - 15 / 24\<rparr>" by simp
    with l show "length ids = 24
      \<and> metrics (analyze_free_blocks ids)
           = Some \<lparr>num_runs = 2, largest_run = 15, average_run = 12, total_free = 24,
                   external_frag = 1 - 15 / 24\<rparr>" by blast
  qed
  from a b c show ?thesis by blast
qed

theorem scenario_free_blocks_witness:
  "pool_wf (run_ops (new_pool 50 16) [Allocate 10, Allocate 15, Allocate 8, Release [10..<25]])
   \<and> free_count (run_ops (new_pool 50 16) [Allocate 10, Allocate 15, Allocate 8, Release [10..<25]])
       = 32
   \<and> set (map int (free_block_queue
         (run_ops (new_pool 50 16) [Allocate 10, Allocate 15, Allocate 8, Release [10..<25]])))
       \<noteq> {10..24} \<union> {41..49}
   \<and> distinct (rev ([10..24] @ [41..49 :: int]))
   \<and> set (rev ([10..24] @ [41..49])) = {10..24} \<union> {41..49 :: int}
   \<and> metrics (analyze_free_blocks (rev ([10..24] @ [41..49])))
       = Some \<lparr>num_runs = 2, largest_run = 15, average_run = 12, total_free = 24,
               external_frag = 1 - 15 / 24\<rparr>"
proof -
  let ?p = "run_ops (new_pool 50 16) [Allocate 10, Allocate 15, Allocate 8, Release [10..<25]]"
  let ?ids = "rev ([10..24] @ [41..49 :: int])"
  have wf: "pool_wf ?p" by code_simp
  have fc: "free_count ?p = 32" by code_simp
  have d: "distinct ?ids" by (metis distinct_rev claimed_ids_list)
  have s: "set ?ids = {10..24} \<union> {41..49}" by (metis set_rev claimed_ids_list)
  note t = scenario_free_blocks [of ?p ?ids]
  from fc have ne: "free_count ?p \<noteq> 24" by simp
  from t wf ne have "set (map int (free_block_queue ?p)) \<noteq> {10..24} \<union> {41..49}" by blast
  moreover from t d s have "metrics (analyze_free_blocks ?ids)
       = Some \<lparr>num_runs = 2, largest_run = 15, average_run = 12, total_free = 24,
               external_frag = 1 - 15 / 24\<rparr>" by blast
  ultimately show ?thesis using wf fc d s by blast
qed


end
